theory Spec2Isabelle
  imports Main "HOL-Library.Word" "HOL-Library.Signed_Division" "HOL-Library.Multiset"
    "HOL-Library.Sublist"
begin

section \<open>The async store: merging ingester chunk ids into the store's chunks\<close>

text \<open>
  This part embeds \<^verbatim>\<open>pkg/storage/async_store.go\<close>: \<^verbatim>\<open>shouldQueryIngesters\<close>,
  \<^verbatim>\<open>AsyncStore.GetChunkRefs\<close>, \<^verbatim>\<open>mergeIngesterAndStoreChunks\<close> and
  \<^verbatim>\<open>filterDuplicateChunks\<close>.
\<close>

subsection \<open>Data\<close>

text \<open>
  \<^verbatim>\<open>model.Time\<close> is an \<^verbatim>\<open>int64\<close> of milliseconds and \<^verbatim>\<open>time.Duration\<close> an
  \<^verbatim>\<open>int64\<close> of nanoseconds; both are 64-bit words read as two's complement.
\<close>

type_synonym Time = "64 word"
type_synonym Duration = "64 word"

text \<open>
  \<^verbatim>\<open>logproto.ChunkRef\<close>, with the fields the repository's tests set
  (\<^verbatim>\<open>Fingerprint\<close>, \<^verbatim>\<open>UserID\<close>, \<^verbatim>\<open>From\<close>, \<^verbatim>\<open>Through\<close>, \<^verbatim>\<open>Checksum\<close>).
\<close>

record ChunkRef =
  Fingerprint :: "64 word"
  UserID :: string
  From :: Time
  Through :: Time
  Checksum :: "32 word"

text \<open>
  \<^verbatim>\<open>chunk.Chunk\<close> embeds a \<^verbatim>\<open>logproto.ChunkRef\<close>; the async store reads nothing else
  of a chunk (\<^verbatim>\<open>storeChunks[i][j].ChunkRef\<close>, \<^verbatim>\<open>chk.Through\<close>, \<^verbatim>\<open>chk.ChunkRef\<close>).
\<close>

record Chunk =
  ChunkRef :: ChunkRef

text \<open>The zero value \<^verbatim>\<open>chunk.Chunk{}\<close>.\<close>

definition zeroChunk :: Chunk where
  "zeroChunk = \<lparr>ChunkRef = \<lparr>Fingerprint = 0, UserID = [], From = 0, Through = 0, Checksum = 0\<rparr>\<rparr>"

text \<open>
  A \<^verbatim>\<open>[]chunk.Chunk\<close> is a slice header: it points into a backing array and has a length
  and a capacity, both counted from its first cell. Two slices can share a backing array.
  The memory is the list of the chunk arrays allocated so far, an array's address its
  index. A slice of capacity 0 (\<^verbatim>\<open>nil\<close>, \<^verbatim>\<open>[]chunk.Chunk{}\<close>) reads no cell.
\<close>

record slice =
  array :: nat
  offset :: nat
  len :: nat
  cap :: nat

type_synonym memory = "Chunk list list"

definition arrayAt :: "memory \<Rightarrow> nat \<Rightarrow> Chunk list" where
  "arrayAt h p = (if p < length h then h ! p else [])"

text \<open>The elements \<^verbatim>\<open>s[0], ..., s[len(s)-1]\<close> of a slice.\<close>

definition elems :: "memory \<Rightarrow> slice \<Rightarrow> Chunk list" where
  "elems h s = take (len s) (drop (offset s) (arrayAt h (array s)))"

definition emptySlice :: slice where
  "emptySlice = \<lparr>array = 0, offset = 0, len = 0, cap = 0\<rparr>"

text \<open>
  Go's \<^verbatim>\<open>append(s, x)\<close>. With spare capacity it writes \<open>x\<close> into the cell after the
  last element of \<open>s\<close>, in the backing array of \<open>s\<close>, whatever else points there, and
  returns \<open>s\<close> one longer. Without, it allocates a new array, copies the elements of \<open>s\<close>
  and adds \<open>x\<close>; the runtime chooses the new capacity (\<open>grow\<close>, given the old capacity and
  the length needed), at least the length needed.
\<close>

definition append_chunk ::
  "(nat \<Rightarrow> nat \<Rightarrow> nat) \<Rightarrow> memory \<Rightarrow> slice \<Rightarrow> Chunk \<Rightarrow> memory \<times> slice" where
  "append_chunk grow h s x =
     (if len s + 1 \<le> cap s
      then (h[array s := (arrayAt h (array s))[offset s + len s := x]], s\<lparr>len := len s + 1\<rparr>)
      else (let newcap = max (len s + 1) (grow (cap s) (len s + 1))
            in (h @ [elems h s @ x # replicate (newcap - (len s + 1)) zeroChunk],
                \<lparr>array = length h, offset = 0, len = len s + 1, cap = newcap\<rparr>)))"

text \<open>
  The collaborators are interfaces whose implementations are not part of the file; each is
  a record of the methods the async store calls. An \<^verbatim>\<open>error\<close> of a collaborator is a
  value of type \<open>'e\<close>, a \<^verbatim>\<open>*fetcher.Fetcher\<close> is a pointer: \<open>None\<close> is \<^verbatim>\<open>nil\<close>,
  \<open>Some f\<close> the fetcher at address \<open>f\<close>. The matchers are passed on unread (\<open>'m\<close>).
\<close>

record ('e, 'f, 'm) ReadStore =
  GetChunkRefs :: "string \<Rightarrow> Time \<Rightarrow> Time \<Rightarrow> 'm \<Rightarrow> 'e + (slice list \<times> 'f option list)"
  GetChunkFetcher :: "Time \<Rightarrow> 'f option"

record ('e, 'm) IngesterQuerier =
  GetChunkIDs :: "Time \<Rightarrow> Time \<Rightarrow> 'm \<Rightarrow> 'e + string list"

text \<open>\<^verbatim>\<open>config.SchemaConfig\<close>: only its method \<^verbatim>\<open>ExternalKey\<close> is called.\<close>

record SchemaConfig =
  ExternalKey :: "ChunkRef \<Rightarrow> string"

record ('e, 'f, 'm) AsyncStore =
  store :: "('e, 'f, 'm) ReadStore"
  scfg :: SchemaConfig
  ingesterQuerier :: "('e, 'm) IngesterQuerier"
  queryIngestersWithin :: Duration

text \<open>
  What a call can end with besides its result: an error of a collaborator, the error
  \<^verbatim>\<open>fmt.Errorf("got a nil fetcher for chunk %s", key)\<close>, or the runtime panic of an index
  out of range.
\<close>

datatype 'e error = Err 'e | NilFetcher string | IndexOutOfRange

subsection \<open>shouldQueryIngesters\<close>

text \<open>
  \<^verbatim>\<open>t.Add(d) = t + Time(d / time.Millisecond)\<close> and \<^verbatim>\<open>t.After(o) = t > o\<close> on
  \<^verbatim>\<open>model.Time\<close>; Go's \<^verbatim>\<open>/\<close> truncates towards zero, the comparison is signed.
\<close>

definition Time_Add :: "Time \<Rightarrow> Duration \<Rightarrow> Time" where
  "Time_Add t d = t + word_of_int (sint d sdiv 1000000)"

definition Time_After :: "Time \<Rightarrow> Time \<Rightarrow> bool" where
  "Time_After t o' \<longleftrightarrow> o' <s t"

definition shouldQueryIngesters :: "('e, 'f, 'm) AsyncStore \<Rightarrow> Time \<Rightarrow> Time \<Rightarrow> bool" where
  "shouldQueryIngesters a through now \<longleftrightarrow>
     queryIngestersWithin a = 0 \<or> Time_After through (Time_Add now (- queryIngestersWithin a))"

subsection \<open>filterDuplicateChunks\<close>

text \<open>
  The first pair of loops puts the external key of every chunk of every group of the store
  into the set \<^verbatim>\<open>seen\<close> (a \<^verbatim>\<open>map[string]struct{}\<close>). The inner loop runs over the
  elements of the group \<^verbatim>\<open>storeChunks[i]\<close>, read from the memory.
\<close>

fun seenGroup :: "SchemaConfig \<Rightarrow> Chunk list \<Rightarrow> string set \<Rightarrow> string set" where
  "seenGroup cfg [] seen = seen"
| "seenGroup cfg (c # cs) seen = seenGroup cfg cs (insert (ExternalKey cfg (ChunkRef c)) seen)"

fun seenStore :: "SchemaConfig \<Rightarrow> memory \<Rightarrow> slice list \<Rightarrow> string set \<Rightarrow> string set" where
  "seenStore cfg h [] seen = seen"
| "seenStore cfg h (g # gs) seen = seenStore cfg h gs (seenGroup cfg (elems h g) seen)"

text \<open>
  The second loop keeps a chunk id that is not in \<^verbatim>\<open>seen\<close>, appends it to
  \<^verbatim>\<open>filteredChunkIDs\<close> and adds it to \<^verbatim>\<open>seen\<close>.
\<close>

fun filterIDs :: "string list \<Rightarrow> string list \<Rightarrow> string set \<Rightarrow> string list" where
  "filterIDs [] filteredChunkIDs seen = filteredChunkIDs"
| "filterIDs (chunkID # rest) filteredChunkIDs seen =
     (if chunkID \<notin> seen
      then filterIDs rest (filteredChunkIDs @ [chunkID]) (insert chunkID seen)
      else filterIDs rest filteredChunkIDs seen)"

definition filterDuplicateChunks ::
  "SchemaConfig \<Rightarrow> memory \<Rightarrow> slice list \<Rightarrow> string list \<Rightarrow> string list" where
  "filterDuplicateChunks cfg h storeChunks ingesterChunkIDs =
     filterIDs ingesterChunkIDs [] (seenStore cfg h storeChunks {})"

subsection \<open>mergeIngesterAndStoreChunks\<close>

text \<open>
  \<^verbatim>\<open>fetcherToChunksGroupIdx\<close> maps a fetcher pointer to the index of its group; the loop
  over \<^verbatim>\<open>fetchers\<close> lets a later index overwrite an earlier one of the same pointer.
\<close>

fun indexFetchers :: "'f option list \<Rightarrow> nat \<Rightarrow> ('f option \<rightharpoonup> nat) \<Rightarrow> ('f option \<rightharpoonup> nat)" where
  "indexFetchers [] i idx = idx"
| "indexFetchers (f # fs) i idx = indexFetchers fs (Suc i) (idx(f \<mapsto> i))"

text \<open>
  The loop over the filtered chunk ids. \<open>parse\<close> is \<^verbatim>\<open>chunk.ParseExternalKey\<close>, a function
  of another package. A chunk of a fetcher that has no group yet opens a new, empty group
  at index \<^verbatim>\<open>len(fetchers) - 1\<close> (after the append). The chunk is appended to the group
  \<^verbatim>\<open>storeChunks[chunksGroupIdx]\<close>: the read panics when the store gave fewer groups than
  fetchers and the index is past the last group, and the append writes into the memory,
  so that it can overwrite an element of another group that shares the backing array.
  The loop returns the memory too, also when it fails.

  The outer slice \<^verbatim>\<open>storeChunks\<close> and the slice \<^verbatim>\<open>fetchers\<close> are lists: each is reached
  through its one variable only, so a cell reads back what the loop wrote there.
\<close>

fun mergeLoop ::
  "(nat \<Rightarrow> nat \<Rightarrow> nat) \<Rightarrow> (string \<Rightarrow> string \<Rightarrow> 'e + Chunk) \<Rightarrow> ('e, 'f, 'm) AsyncStore \<Rightarrow>
   string \<Rightarrow> string list \<Rightarrow> memory \<Rightarrow> slice list \<Rightarrow> 'f option list \<Rightarrow> ('f option \<rightharpoonup> nat) \<Rightarrow>
   memory \<times> ('e error + (slice list \<times> 'f option list))" where
  "mergeLoop grow parse a userID [] h storeChunks fetchers idx = (h, Inr (storeChunks, fetchers))"
| "mergeLoop grow parse a userID (chunkID # rest) h storeChunks fetchers idx =
     (case parse userID chunkID of
        Inl err \<Rightarrow> (h, Inl (Err err))
      | Inr chk \<Rightarrow>
          (case GetChunkFetcher (store a) (Through (ChunkRef chk)) of
             None \<Rightarrow> (h, Inl (NilFetcher (ExternalKey (scfg a) (ChunkRef chk))))
           | Some f \<Rightarrow>
               (case idx (Some f) of
                  None \<Rightarrow>
                    (let fetchers' = fetchers @ [Some f];
                         storeChunks' = storeChunks @ [emptySlice];
                         chunksGroupIdx = length fetchers' - 1
                     in if chunksGroupIdx < length storeChunks'
                        then (case append_chunk grow h (storeChunks' ! chunksGroupIdx) chk of
                                (h', s') \<Rightarrow>
                                  mergeLoop grow parse a userID rest h'
                                    (storeChunks'[chunksGroupIdx := s'])
                                    fetchers' (idx(Some f \<mapsto> chunksGroupIdx)))
                        else (h, Inl IndexOutOfRange))
                | Some chunksGroupIdx \<Rightarrow>
                    (if chunksGroupIdx < length storeChunks
                     then (case append_chunk grow h (storeChunks ! chunksGroupIdx) chk of
                             (h', s') \<Rightarrow>
                               mergeLoop grow parse a userID rest h'
                                 (storeChunks[chunksGroupIdx := s']) fetchers idx)
                     else (h, Inl IndexOutOfRange)))))"

definition mergeIngesterAndStoreChunks ::
  "(nat \<Rightarrow> nat \<Rightarrow> nat) \<Rightarrow> (string \<Rightarrow> string \<Rightarrow> 'e + Chunk) \<Rightarrow> ('e, 'f, 'm) AsyncStore \<Rightarrow>
   string \<Rightarrow> memory \<Rightarrow> slice list \<Rightarrow> 'f option list \<Rightarrow> string list \<Rightarrow>
   memory \<times> ('e error + (slice list \<times> 'f option list))" where
  "mergeIngesterAndStoreChunks grow parse a userID h storeChunks fetchers ingesterChunkIDs =
     mergeLoop grow parse a userID (filterDuplicateChunks (scfg a) h storeChunks ingesterChunkIDs)
       h storeChunks fetchers (indexFetchers fetchers 0 Map.empty)"

subsection \<open>AsyncStore.GetChunkRefs\<close>

text \<open>
  Two goroutines run the store's \<^verbatim>\<open>GetChunkRefs\<close> and, when \<^verbatim>\<open>shouldQueryIngesters\<close>
  holds at \<^verbatim>\<open>model.Now()\<close> (the argument \<open>now\<close>), the ingesters' \<^verbatim>\<open>GetChunkIDs\<close>; a
  skipped ingester query leaves \<^verbatim>\<open>ingesterChunks\<close> nil. The caller receives both errors
  from one channel and returns the first that is not nil: when both calls fail, the one
  whose goroutine sent first (\<open>storeFirst\<close>). The memory \<open>h\<close> is the one the store's groups
  point into once both goroutines are done.
\<close>

definition ingesterGoroutine ::
  "('e, 'f, 'm) AsyncStore \<Rightarrow> Time \<Rightarrow> Time \<Rightarrow> Time \<Rightarrow> 'm \<Rightarrow> 'e + string list" where
  "ingesterGoroutine a now from through matchers =
     (if \<not> shouldQueryIngesters a through now then Inr []
      else GetChunkIDs (ingesterQuerier a) from through matchers)"

definition AsyncStore_GetChunkRefs ::
  "(nat \<Rightarrow> nat \<Rightarrow> nat) \<Rightarrow> (string \<Rightarrow> string \<Rightarrow> 'e + Chunk) \<Rightarrow> ('e, 'f, 'm) AsyncStore \<Rightarrow>
   bool \<Rightarrow> Time \<Rightarrow> memory \<Rightarrow> string \<Rightarrow> Time \<Rightarrow> Time \<Rightarrow> 'm \<Rightarrow>
   memory \<times> ('e error + (slice list \<times> 'f option list))" where
  "AsyncStore_GetChunkRefs grow parse a storeFirst now h userID from through matchers =
     (case (GetChunkRefs (store a) userID from through matchers,
            ingesterGoroutine a now from through matchers) of
        (Inl storeErr, Inl ingesterErr) \<Rightarrow>
          (h, Inl (Err (if storeFirst then storeErr else ingesterErr)))
      | (Inl storeErr, Inr _) \<Rightarrow> (h, Inl (Err storeErr))
      | (Inr _, Inl ingesterErr) \<Rightarrow> (h, Inl (Err ingesterErr))
      | (Inr (storeChunks, fetchers), Inr ingesterChunks) \<Rightarrow>
          (if length ingesterChunks = 0 then (h, Inr (storeChunks, fetchers))
           else mergeIngesterAndStoreChunks grow parse a userID h storeChunks fetchers
                  ingesterChunks))"

subsection \<open>Reading a result\<close>

text \<open>The chunks of the groups, and the external keys of all of them, in order.\<close>

definition groupChunks :: "memory \<Rightarrow> slice list \<Rightarrow> Chunk list list" where
  "groupChunks h groups = map (elems h) groups"

definition chunkKeys :: "SchemaConfig \<Rightarrow> memory \<Rightarrow> slice list \<Rightarrow> string list" where
  "chunkKeys cfg h groups = map (\<lambda>c. ExternalKey cfg (ChunkRef c)) (concat (groupChunks h groups))"

text \<open>
  Every Go slice is valid: its length is at most its capacity, and its capacity lies
  within its backing array.
\<close>

definition valid :: "memory \<Rightarrow> slice \<Rightarrow> bool" where
  "valid h s \<longleftrightarrow>
     len s \<le> cap s \<and> (cap s = 0 \<or> (array s < length h \<and> offset s + cap s \<le> length (h ! array s)))"

text \<open>
  The spare capacity of \<open>s\<close> (the cells after its last element, up to its capacity) lies
  outside \<open>t\<close> (the cells of \<open>t\<close> up to its capacity): an append to \<open>s\<close> cannot write into
  \<open>t\<close>, now or after \<open>t\<close> has grown in place.
\<close>

definition spareOutside :: "slice \<Rightarrow> slice \<Rightarrow> bool" where
  "spareOutside s t \<longleftrightarrow>
     cap s \<le> len s \<or> cap t = 0 \<or> array s \<noteq> array t \<or>
     offset s + cap s \<le> offset t \<or> offset t + cap t \<le> offset s + len s"

text \<open>No group of the list has spare capacity inside another group of the list.\<close>

fun noSharing :: "slice list \<Rightarrow> bool" where
  "noSharing [] = True"
| "noSharing (s # ss) = (list_all (\<lambda>t. spareOutside s t \<and> spareOutside t s) ss \<and> noSharing ss)"

section \<open>The bloom gateway querier: the short circuit of FilterChunkRefs\<close>

text \<open>
  The test client of the bloom querier (\<^verbatim>\<open>noopClient\<close>): \<^verbatim>\<open>FilterChunks\<close> counts the
  call and returns the groups it was given together with the client's error.
  \<^verbatim>\<open>callCount\<close> is a Go \<^verbatim>\<open>int\<close>; the tests count to two.
\<close>

record 'e noopClient =
  err :: "'e option"
  callCount :: int

definition FilterChunks ::
  "'e noopClient \<Rightarrow> string \<Rightarrow> Time \<Rightarrow> Time \<Rightarrow> 'g \<Rightarrow> 'p \<Rightarrow> 'e noopClient \<times> 'g \<times> 'e option" where
  "FilterChunks c tenant from through groups plan =
     (c\<lparr>callCount := callCount c + 1\<rparr>, groups, err c)"

text \<open>
  Modelled from the spec: \<^verbatim>\<open>plan.QueryPlan\<close>, whose syntax tree is not among the
  sources. The spec speaks of the plan's "line-filter predicates"; a plan is the stream
  selector and the list of its line filters, so \<^verbatim>\<open>{foo="bar"}\<close> has none and
  \<^verbatim>\<open>{foo="bar"} |= "uuid"\<close> has one.
\<close>

record QueryPlan =
  selector :: "(string \<times> string) list"
  lineFilters :: "string list"

text \<open>
  Modelled from the spec: \<^verbatim>\<open>BloomQuerier.FilterChunkRefs\<close>, whose code is not among
  the sources (its test is). The spec: "the querier partitions a multi-day range into
  per-day calls (one call per UTC day overlapping [from, through]), short-circuits when
  either the grouped-refs list is empty or the plan carries no line-filter predicates."
  The short circuit hands back the chunk refs it was given, with no error and without
  touching the client \<open>c\<close>. What happens otherwise is the argument \<open>perDay\<close>: the spec
  names the per-day calls but not the refs of each call nor how their results combine.
\<close>

definition FilterChunkRefs ::
  "('c \<Rightarrow> string \<Rightarrow> Time \<Rightarrow> Time \<Rightarrow> ChunkRef list \<Rightarrow> QueryPlan \<Rightarrow> 'c \<times> ('e + ChunkRef list)) \<Rightarrow>
   'c \<Rightarrow> string \<Rightarrow> Time \<Rightarrow> Time \<Rightarrow> ChunkRef list \<Rightarrow> QueryPlan \<Rightarrow> 'c \<times> ('e + ChunkRef list)" where
  "FilterChunkRefs perDay c tenant from through chunkRefs plan =
     (if chunkRefs = [] \<or> lineFilters plan = [] then (c, Inr chunkRefs)
      else perDay c tenant from through chunkRefs plan)"

section \<open>Example values\<close>

text \<open>
  Three chunks of the tenant \<^verbatim>\<open>fake\<close>, a schema whose external keys are
  \<^verbatim>\<open>fake/1\<close>, \<^verbatim>\<open>fake/2\<close> and \<^verbatim>\<open>fake/3\<close>, the parser that inverts it, and a store
  with two fetchers: fetcher 0 for chunks that end by time 10, fetcher 1 for later ones.
  New arrays get twice the old capacity.
\<close>

definition c1 :: Chunk where
  "c1 = \<lparr>ChunkRef = \<lparr>Fingerprint = 1000, UserID = ''fake'', From = 0, Through = 10, Checksum = 1\<rparr>\<rparr>"

definition c2 :: Chunk where
  "c2 = \<lparr>ChunkRef = \<lparr>Fingerprint = 2000, UserID = ''fake'', From = 5, Through = 10, Checksum = 2\<rparr>\<rparr>"

definition c3 :: Chunk where
  "c3 = \<lparr>ChunkRef = \<lparr>Fingerprint = 3000, UserID = ''fake'', From = 10, Through = 20, Checksum = 3\<rparr>\<rparr>"

definition exampleParse :: "string \<Rightarrow> string \<Rightarrow> string + Chunk" where
  "exampleParse userID key =
     (if key = ''fake/1'' then Inr c1 else if key = ''fake/2'' then Inr c2
      else if key = ''fake/3'' then Inr c3 else Inl ''invalid chunk id'')"

definition exampleScfg :: SchemaConfig where
  "exampleScfg = \<lparr>ExternalKey = (\<lambda>r. if Fingerprint r = 1000 then ''fake/1''
      else if Fingerprint r = 2000 then ''fake/2'' else ''fake/3'')\<rparr>"

definition exampleStore :: "slice list \<Rightarrow> nat option list \<Rightarrow> (string, nat, unit) ReadStore" where
  "exampleStore groups fs =
     \<lparr>GetChunkRefs = (\<lambda>userID from through matchers. Inr (groups, fs)),
      GetChunkFetcher = (\<lambda>t. Some (if t \<le> 10 then 0 else 1))\<rparr>"

definition exampleAsyncStore ::
  "slice list \<Rightarrow> nat option list \<Rightarrow> string list \<Rightarrow> (string, nat, unit) AsyncStore" where
  "exampleAsyncStore groups fs ids =
     \<lparr>store = exampleStore groups fs, scfg = exampleScfg,
      ingesterQuerier = \<lparr>GetChunkIDs = (\<lambda>from through matchers. Inr ids)\<rparr>,
      queryIngestersWithin = 0\<rparr>"

definition double :: "nat \<Rightarrow> nat \<Rightarrow> nat" where
  "double oldcap needed = 2 * oldcap"

text \<open>The slice \<^verbatim>\<open>a[i:j]\<close> of an array of \<open>n\<close> cells at address \<open>p\<close>; its capacity is \<open>n - i\<close>.\<close>

definition sliceOf :: "nat \<Rightarrow> nat \<Rightarrow> nat \<Rightarrow> nat \<Rightarrow> slice" where
  "sliceOf p n i j = \<lparr>array = p, offset = i, len = j - i, cap = n - i\<rparr>"

text \<open>
  The chunk refs and the two plans of the bloom querier's test, and a per-day path that
  sends all refs to the client in one call.
\<close>

definition testChunkRefs :: "ChunkRef list" where
  "testChunkRefs =
     [\<lparr>Fingerprint = 3000, UserID = ''fake'', From = 0, Through = 0, Checksum = 1\<rparr>,
      \<lparr>Fingerprint = 1000, UserID = ''fake'', From = 0, Through = 0, Checksum = 2\<rparr>,
      \<lparr>Fingerprint = 2000, UserID = ''fake'', From = 0, Through = 0, Checksum = 3\<rparr>]"

definition planSelectorOnly :: QueryPlan where
  "planSelectorOnly = \<lparr>selector = [(''foo'', ''bar'')], lineFilters = []\<rparr>"

definition planLineFilter :: QueryPlan where
  "planLineFilter = \<lparr>selector = [(''foo'', ''bar'')], lineFilters = [''uuid'']\<rparr>"

definition oneCall ::
  "string noopClient \<Rightarrow> string \<Rightarrow> Time \<Rightarrow> Time \<Rightarrow> ChunkRef list \<Rightarrow> QueryPlan \<Rightarrow>
   string noopClient \<times> (string + ChunkRef list)" where
  "oneCall c tenant from through chunkRefs plan =
     (case FilterChunks c tenant from through chunkRefs plan of
        (c', groups, None) \<Rightarrow> (c', Inr groups)
      | (c', groups, Some e) \<Rightarrow> (c', Inl e))"

section \<open>Properties of the async store\<close>

subsection \<open>filterDuplicateChunks\<close>

lemma seenGroup_eq:
  "seenGroup cfg cs seen = seen \<union> (\<lambda>c. ExternalKey cfg (ChunkRef c)) ` set cs"
  by (induction cs arbitrary: seen) auto

lemma seenStore_eq: "seenStore cfg h gs seen = seen \<union> set (chunkKeys cfg h gs)"
  by (induction gs arbitrary: seen) (auto simp: seenGroup_eq chunkKeys_def groupChunks_def)

lemma set_filterIDs: "set (filterIDs ids acc seen) = set acc \<union> (set ids - seen)"
  by (induction ids arbitrary: acc seen) auto

text \<open>
  The loop keeps \<^verbatim>\<open>filteredChunkIDs\<close> free of repetitions as long as every id already
  kept is in \<^verbatim>\<open>seen\<close>.
\<close>

lemma distinct_filterIDs:
  "distinct acc \<Longrightarrow> set acc \<subseteq> seen \<Longrightarrow> distinct (filterIDs ids acc seen)"
proof (induction ids arbitrary: acc seen)
  case Nil
  then show ?case by simp
next
  case (Cons x xs)
  show ?case
  proof (cases "x \<in> seen")
    case True
    with Cons show ?thesis by simp
  next
    case False
    with Cons.prems have "distinct (acc @ [x])" "set (acc @ [x]) \<subseteq> insert x seen"
      by auto
    then have "distinct (filterIDs xs (acc @ [x]) (insert x seen))"
      by (rule Cons.IH)
    with False show ?thesis by simp
  qed
qed

lemma filterIDs_append: "\<exists>ys. filterIDs ids acc seen = acc @ ys \<and> subseq ys ids"
proof (induction ids arbitrary: acc seen)
  case Nil
  then show ?case by simp
next
  case (Cons x xs)
  show ?case
  proof (cases "x \<in> seen")
    case True
    with Cons[of acc seen] show ?thesis by auto
  next
    case False
    from Cons[of "acc @ [x]" "insert x seen"] obtain ys where
      "filterIDs xs (acc @ [x]) (insert x seen) = (acc @ [x]) @ ys" "subseq ys xs" by blast
    with False show ?thesis by (intro exI[of _ "x # ys"]) auto
  qed
qed

lemma filterDuplicateChunks_distinct: "distinct (filterDuplicateChunks cfg h sc ids)"
  by (simp add: filterDuplicateChunks_def distinct_filterIDs)

lemma filterDuplicateChunks_set:
  "set (filterDuplicateChunks cfg h sc ids) = set ids - set (chunkKeys cfg h sc)"
  by (simp add: filterDuplicateChunks_def set_filterIDs seenStore_eq)

lemma filterDuplicateChunks_subseq: "subseq (filterDuplicateChunks cfg h sc ids) ids"
  using filterIDs_append[of ids "[]" "seenStore cfg h sc {}"]
  by (auto simp: filterDuplicateChunks_def)

lemma filterDuplicateChunks_Nil: "filterDuplicateChunks cfg h sc [] = []"
  by (simp add: filterDuplicateChunks_def)

text \<open>
  In full: the result is the list of the ids that are no key of the store, each at its
  first occurrence.
\<close>

lemma remdups_snoc:
  "remdups (ys @ [x]) = remdups (filter (\<lambda>y. y \<noteq> x) ys) @ [x]"
  by (induction ys) auto

lemma filterIDs_eq:
  "filterIDs ids acc seen = acc @ rev (remdups (rev (filter (\<lambda>x. x \<notin> seen) ids)))"
proof (induction ids arbitrary: acc seen)
  case Nil
  then show ?case by simp
next
  case (Cons x xs)
  show ?case
  proof (cases "x \<in> seen")
    case True
    with Cons show ?thesis by simp
  next
    case False
    have "remdups (rev (filter (\<lambda>y. y \<notin> seen) xs) @ [x])
            = remdups (filter (\<lambda>y. y \<noteq> x) (rev (filter (\<lambda>y. y \<notin> seen) xs))) @ [x]"
      by (rule remdups_snoc)
    also have "filter (\<lambda>y. y \<noteq> x) (rev (filter (\<lambda>y. y \<notin> seen) xs))
            = rev (filter (\<lambda>y. y \<notin> insert x seen) xs)"
      by (simp add: rev_filter[symmetric] conj_commute)
    finally have "remdups (rev (filter (\<lambda>y. y \<notin> seen) xs) @ [x])
            = remdups (rev (filter (\<lambda>y. y \<notin> insert x seen) xs)) @ [x]" .
    with False Cons[of "acc @ [x]" "insert x seen"] show ?thesis by simp
  qed
qed

lemma filterDuplicateChunks_first_occurrences:
  "filterDuplicateChunks cfg h sc ids
     = rev (remdups (rev (filter (\<lambda>i. i \<notin> set (chunkKeys cfg h sc)) ids)))"
  by (simp add: filterDuplicateChunks_def filterIDs_eq seenStore_eq)

subsection \<open>Slices and append\<close>

text \<open>
  The groups are separate when no two of them, at different indices, can reach into each
  other by an append.
\<close>

lemma noSharing_nth:
  "noSharing ss \<longleftrightarrow> (\<forall>i<length ss. \<forall>j<length ss. i \<noteq> j \<longrightarrow> spareOutside (ss ! i) (ss ! j))"
proof (induction ss)
  case Nil
  then show ?case by simp
next
  case (Cons s ss)
  have "(\<forall>i<Suc (length ss). \<forall>j<Suc (length ss). i \<noteq> j \<longrightarrow> spareOutside ((s # ss) ! i) ((s # ss) ! j))
     \<longleftrightarrow> (\<forall>k<length ss. spareOutside s (ss ! k) \<and> spareOutside (ss ! k) s) \<and>
         (\<forall>i<length ss. \<forall>j<length ss. i \<noteq> j \<longrightarrow> spareOutside (ss ! i) (ss ! j))"
    (is "?L \<longleftrightarrow> ?A \<and> ?B")
  proof
    assume L: ?L
    have ?A
    proof (intro allI impI conjI)
      fix k assume "k < length ss"
      with L[rule_format, of 0 "Suc k"] show "spareOutside s (ss ! k)" by simp
      from \<open>k < length ss\<close> L[rule_format, of "Suc k" 0] show "spareOutside (ss ! k) s" by simp
    qed
    moreover have ?B
    proof (intro allI impI)
      fix i j assume "i < length ss" "j < length ss" "i \<noteq> j"
      with L[rule_format, of "Suc i" "Suc j"] show "spareOutside (ss ! i) (ss ! j)" by simp
    qed
    ultimately show "?A \<and> ?B" ..
  next
    assume AB: "?A \<and> ?B"
    show ?L
    proof (intro allI impI)
      fix i j assume "i < Suc (length ss)" "j < Suc (length ss)" "i \<noteq> j"
      with AB show "spareOutside ((s # ss) ! i) ((s # ss) ! j)"
        by (cases i; cases j) auto
    qed
  qed
  with Cons show ?case
    by (simp add: list_all_iff all_set_conv_all_nth)
qed

lemma valid_nth: "list_all (valid h) ss \<Longrightarrow> i < length ss \<Longrightarrow> valid h (ss ! i)"
  by (simp add: list_all_length)

text \<open>
  An append in place adds the chunk to the slice, and leaves alone every slice that the
  spare capacity written to lies outside of.
\<close>

lemma elems_inplace_self:
  assumes "valid h s" "len s + 1 \<le> cap s"
  shows "elems (h[array s := (arrayAt h (array s))[offset s + len s := x]]) (s\<lparr>len := len s + 1\<rparr>)
         = elems h s @ [x]"
proof -
  from assms have a: "array s < length h" and b: "offset s + len s < length (h ! array s)"
    by (auto simp: valid_def)
  let ?A = "h ! array s"
  have "take (Suc (len s)) (drop (offset s) (?A[offset s + len s := x]))
          = take (len s) (drop (offset s) ?A) @ [x]"
    using b by (simp add: take_Suc_conv_app_nth drop_update_swap)
  with a show ?thesis by (simp add: elems_def arrayAt_def)
qed

lemma elems_inplace_other:
  assumes "valid h s" "len s + 1 \<le> cap s" "valid h t" "spareOutside s t"
  shows "elems (h[array s := (arrayAt h (array s))[offset s + len s := x]]) t = elems h t"
proof (cases "cap t = 0 \<or> array t \<noteq> array s")
  case True
  with assms(3) show ?thesis
    by (auto simp: elems_def arrayAt_def valid_def)
next
  case False
  then have eq: "array t = array s" and ct: "cap t \<noteq> 0" by auto
  from assms(1,2) have a: "array s < length h" by (auto simp: valid_def)
  let ?A = "h ! array s"
  let ?p = "offset s + len s"
  from assms(2,4) eq ct have "?p < offset t \<or> offset t + cap t \<le> ?p"
    by (auto simp: spareOutside_def)
  moreover from assms(3) have "len t \<le> cap t" by (simp add: valid_def)
  ultimately have "?p < offset t \<or> offset t + len t \<le> ?p" by auto
  then have "take (len t) (drop (offset t) (?A[?p := x])) = take (len t) (drop (offset t) ?A)"
    by (auto simp: drop_update_cancel drop_update_swap take_update_cancel)
  with a eq show ?thesis by (simp add: elems_def arrayAt_def)
qed

lemma valid_inplace:
  assumes "valid h t"
  shows "valid (h[p := (arrayAt h p)[q := x]]) t"
  using assms by (auto simp: valid_def arrayAt_def nth_list_update)

text \<open>An append into a new array leaves every other slice alone.\<close>

lemma length_elems: "valid h s \<Longrightarrow> length (elems h s) = len s"
  by (auto simp: valid_def elems_def arrayAt_def)

lemma elems_new_self:
  assumes "valid h s"
  shows "elems (h @ [elems h s @ x # replicate n zeroChunk])
           \<lparr>array = length h, offset = 0, len = len s + 1, cap = c\<rparr> = elems h s @ [x]"
  using length_elems[OF assms] by (simp add: elems_def arrayAt_def)

lemma elems_new_other:
  assumes "valid h t"
  shows "elems (h @ [A]) t = elems h t"
  using assms by (auto simp: elems_def arrayAt_def valid_def nth_append)

lemma valid_new: "valid h t \<Longrightarrow> valid (h @ [A]) t"
  by (auto simp: valid_def nth_append)

text \<open>
  In both cases: the slice returned holds the old elements and the new chunk, valid slices
  stay valid, slices outside the spare capacity of the old slice keep their elements, and
  no spare capacity moves into another slice.
\<close>

lemma append_chunk_props:
  assumes v: "valid h s" and ap: "append_chunk grow h s x = (h', s')"
  shows "valid h' s'"
    and "elems h' s' = elems h s @ [x]"
    and "\<And>t. valid h t \<Longrightarrow> valid h' t"
    and "\<And>t. valid h t \<Longrightarrow> spareOutside s t \<Longrightarrow> elems h' t = elems h t"
    and "\<And>t. valid h t \<Longrightarrow> spareOutside s t \<Longrightarrow> spareOutside s' t"
    and "\<And>t. valid h t \<Longrightarrow> spareOutside t s \<Longrightarrow> spareOutside t s'"
proof -
  show "valid h' s'"
  proof (cases "len s + 1 \<le> cap s")
    case True
    with ap have "h' = h[array s := (arrayAt h (array s))[offset s + len s := x]]"
      and s': "s' = s\<lparr>len := len s + 1\<rparr>"
      by (auto simp: append_chunk_def)
    with valid_inplace[OF v, of "array s" "offset s + len s" x] True show ?thesis
      by (auto simp: valid_def)
  next
    case False
    with ap show ?thesis
      by (auto simp: append_chunk_def Let_def valid_def length_elems[OF v])
  qed
  show "elems h' s' = elems h s @ [x]"
  proof (cases "len s + 1 \<le> cap s")
    case True
    with ap elems_inplace_self[OF v True, of x] show ?thesis
      by (auto simp: append_chunk_def)
  next
    case False
    with ap elems_new_self[OF v] show ?thesis
      by (auto simp: append_chunk_def Let_def)
  qed
  show "valid h' t" if "valid h t" for t
    using that ap valid_inplace[OF that] valid_new[OF that]
    by (auto simp: append_chunk_def Let_def split: if_splits)
  show "elems h' t = elems h t" if "valid h t" "spareOutside s t" for t
  proof (cases "len s + 1 \<le> cap s")
    case True
    with ap elems_inplace_other[OF v True that, of x] show ?thesis
      by (auto simp: append_chunk_def)
  next
    case False
    with ap elems_new_other[OF that(1)] show ?thesis
      by (auto simp: append_chunk_def Let_def)
  qed
  show "spareOutside s' t" if "valid h t" "spareOutside s t" for t
    using that ap by (auto simp: append_chunk_def Let_def spareOutside_def valid_def split: if_splits)
  show "spareOutside t s'" if "valid h t" "spareOutside t s" for t
    using that ap by (auto simp: append_chunk_def Let_def spareOutside_def valid_def split: if_splits)
qed

text \<open>
  For separate valid groups, an append to the group at index \<open>j\<close> is an append to the list
  of its chunks and changes no other group; the groups stay valid and separate.
\<close>

lemma append_chunk_step:
  assumes v: "list_all (valid h) ss" and n: "noSharing ss" and j: "j < length ss"
      and ap: "append_chunk grow h (ss ! j) x = (h', s')"
  shows "list_all (valid h') (ss[j := s'])"
    and "noSharing (ss[j := s'])"
    and "groupChunks h' (ss[j := s']) = (groupChunks h ss)[j := groupChunks h ss ! j @ [x]]"
proof -
  note vj = valid_nth[OF v j]
  note p = append_chunk_props[OF vj ap]
  have so: "spareOutside (ss ! i) (ss ! k)" if "i < length ss" "k < length ss" "i \<noteq> k" for i k
    using n that by (simp add: noSharing_nth)
  show "list_all (valid h') (ss[j := s'])"
    unfolding list_all_length
  proof (intro allI impI)
    fix i assume "i < length (ss[j := s'])"
    then show "valid h' (ss[j := s'] ! i)"
      using p(1) p(3)[OF valid_nth[OF v, of i]] by (cases "i = j") auto
  qed
  show "noSharing (ss[j := s'])"
    unfolding noSharing_nth
  proof (intro allI impI)
    fix i k assume ik: "i < length (ss[j := s'])" "k < length (ss[j := s'])" "i \<noteq> k"
    then have i: "i < length ss" and k: "k < length ss" by auto
    show "spareOutside (ss[j := s'] ! i) (ss[j := s'] ! k)"
    proof (cases "i = j")
      case True
      with ik k j p(5)[OF valid_nth[OF v k] so[OF j k]] show ?thesis by auto
    next
      case False
      show ?thesis
      proof (cases "k = j")
        case True
        with False i j p(6)[OF valid_nth[OF v i] so[OF i j]] show ?thesis by auto
      next
        case False
        with \<open>i \<noteq> j\<close> i k ik so[OF i k] show ?thesis by auto
      qed
    qed
  qed
  show "groupChunks h' (ss[j := s']) = (groupChunks h ss)[j := groupChunks h ss ! j @ [x]]"
  proof (rule nth_equalityI)
    show "length (groupChunks h' (ss[j := s'])) = length ((groupChunks h ss)[j := groupChunks h ss ! j @ [x]])"
      by (simp add: groupChunks_def)
  next
    fix i assume "i < length (groupChunks h' (ss[j := s']))"
    then have i: "i < length ss" by (simp add: groupChunks_def)
    show "groupChunks h' (ss[j := s']) ! i = (groupChunks h ss)[j := groupChunks h ss ! j @ [x]] ! i"
    proof (cases "i = j")
      case True
      with i p(2) show ?thesis by (simp add: groupChunks_def)
    next
      case False
      with i j p(4)[OF valid_nth[OF v i] so[OF j i]] show ?thesis
        by (simp add: groupChunks_def)
    qed
  qed
qed

lemma valid_emptySlice: "valid h emptySlice"
  by (simp add: valid_def emptySlice_def)

lemma elems_emptySlice: "elems h emptySlice = []"
  by (simp add: elems_def emptySlice_def)

lemma noSharing_snoc_empty: "noSharing ss \<Longrightarrow> noSharing (ss @ [emptySlice])"
  by (induction ss) (auto simp: spareOutside_def emptySlice_def)

subsection \<open>mergeIngesterAndStoreChunks\<close>

lemma mset_concat_update:
  "i < length xs \<Longrightarrow> mset (concat (xs[i := xs ! i @ [c]])) = mset (concat xs) + {#c#}"
proof (induction xs arbitrary: i)
  case Nil
  then show ?case by simp
next
  case (Cons x xs)
  then show ?case by (cases i) auto
qed

text \<open>One round of the loop that goes on: the chunk parsed, the group chosen, the append.\<close>

lemma mergeLoop_step:
  assumes "mergeLoop grow parse a uid (i # ids) h sc fs idx = (h', Inr (sc', fs'))"
  obtains chk sc1 fs1 idx1 j h1 s1 where
    "parse uid i = Inr chk" "sc1 = sc \<or> sc1 = sc @ [emptySlice]" "prefix fs fs1" "j < length sc1"
    "append_chunk grow h (sc1 ! j) chk = (h1, s1)"
    "mergeLoop grow parse a uid ids h1 (sc1[j := s1]) fs1 idx1 = (h', Inr (sc', fs'))"
proof -
  from assms obtain chk where chk: "parse uid i = Inr chk"
    by (auto split: sum.splits)
  from assms chk obtain f where f: "GetChunkFetcher (store a) (Through (ChunkRef chk)) = Some f"
    by (auto split: option.splits)
  show ?thesis
  proof (cases "idx (Some f)")
    case None
    obtain h1 s1 where ap: "append_chunk grow h ((sc @ [emptySlice]) ! length fs) chk = (h1, s1)"
      by (cases "append_chunk grow h ((sc @ [emptySlice]) ! length fs) chk") auto
    with assms chk f None
      that[of chk "sc @ [emptySlice]" "fs @ [Some f]" "length fs" h1 s1 "idx(Some f \<mapsto> length fs)"]
    show ?thesis by (auto simp: Let_def split: if_splits)
  next
    case (Some k)
    obtain h1 s1 where ap: "append_chunk grow h (sc ! k) chk = (h1, s1)"
      by (cases "append_chunk grow h (sc ! k) chk") auto
    with assms chk f Some that[of chk sc fs k h1 s1 idx]
    show ?thesis by (auto split: if_splits)
  qed
qed

text \<open>
  A loop that returns has parsed every id it was given. When it started from valid,
  separate groups, its groups are valid and separate again and hold the chunks of the
  groups it started from and the parsed chunks, each once more than before.
\<close>

lemma mergeLoop_chunks:
  "mergeLoop grow parse a uid ids h sc fs idx = (h', Inr (sc', fs')) \<Longrightarrow>
   \<exists>cs. list_all2 (\<lambda>i c. parse uid i = Inr c) ids cs \<and>
        (list_all (valid h) sc \<and> noSharing sc \<longrightarrow>
           list_all (valid h') sc' \<and> noSharing sc' \<and>
           mset (concat (groupChunks h' sc')) = mset (concat (groupChunks h sc)) + mset cs)"
proof (induction ids arbitrary: h sc fs idx)
  case Nil
  then show ?case by simp
next
  case (Cons i ids)
  from Cons.prems obtain chk sc1 fs1 idx1 j h1 s1 where
    chk: "parse uid i = Inr chk" and sc1: "sc1 = sc \<or> sc1 = sc @ [emptySlice]"
    and j: "j < length sc1" and ap: "append_chunk grow h (sc1 ! j) chk = (h1, s1)"
    and rec: "mergeLoop grow parse a uid ids h1 (sc1[j := s1]) fs1 idx1 = (h', Inr (sc', fs'))"
    by (rule mergeLoop_step)
  from Cons.IH[OF rec] obtain cs where
    cs: "list_all2 (\<lambda>i c. parse uid i = Inr c) ids cs"
    and step: "list_all (valid h1) (sc1[j := s1]) \<and> noSharing (sc1[j := s1]) \<longrightarrow>
           list_all (valid h') sc' \<and> noSharing sc' \<and>
           mset (concat (groupChunks h' sc')) = mset (concat (groupChunks h1 (sc1[j := s1]))) + mset cs"
    by blast
  have "list_all (valid h') sc' \<and> noSharing sc' \<and>
        mset (concat (groupChunks h' sc')) = mset (concat (groupChunks h sc)) + mset (chk # cs)"
    if w: "list_all (valid h) sc \<and> noSharing sc"
  proof -
    from w sc1 have v1: "list_all (valid h) sc1" and n1: "noSharing sc1"
      by (auto simp: valid_emptySlice noSharing_snoc_empty)
    from sc1 have g1: "mset (concat (groupChunks h sc1)) = mset (concat (groupChunks h sc))"
      by (auto simp: groupChunks_def elems_emptySlice)
    note s = append_chunk_step[OF v1 n1 j ap]
    from j have "j < length (groupChunks h sc1)" by (simp add: groupChunks_def)
    with s(3) g1 have "mset (concat (groupChunks h1 (sc1[j := s1]))) = mset (concat (groupChunks h sc)) + {#chk#}"
      by (simp add: mset_concat_update)
    with step s(1,2) show ?thesis by simp
  qed
  with cs chk show ?case
    by (intro exI[of _ "chk # cs"]) simp
qed

lemma merge_chunks:
  assumes "mergeIngesterAndStoreChunks grow parse a userID h sc fs ids = (h', Inr (chunks', fetchers'))"
  shows "\<exists>cs. list_all2 (\<lambda>i c. parse userID i = Inr c) (filterDuplicateChunks (scfg a) h sc ids) cs \<and>
           (list_all (valid h) sc \<and> noSharing sc \<longrightarrow>
              list_all (valid h') chunks' \<and> noSharing chunks' \<and>
              mset (concat (groupChunks h' chunks')) = mset (concat (groupChunks h sc)) + mset cs)"
  using assms unfolding mergeIngesterAndStoreChunks_def by (rule mergeLoop_chunks)

lemma keys_of_parsed:
  assumes "list_all2 (\<lambda>i c. parse userID i = Inr c) xs cs"
      and "\<forall>i\<in>set xs. \<forall>c. parse userID i = Inr c \<longrightarrow> ExternalKey cfg (ChunkRef c) = i"
  shows "map (\<lambda>c. ExternalKey cfg (ChunkRef c)) cs = xs"
  using assms by (induction xs cs rule: list_all2_induct) auto

lemma distinct_merged_keys:
  assumes m: "mset (concat (groupChunks h' chunks')) = mset (concat (groupChunks h sc)) + mset cs"
      and p: "list_all2 (\<lambda>i c. parse userID i = Inr c) (filterDuplicateChunks cfg h sc ids) cs"
      and d: "distinct (chunkKeys cfg h sc)"
      and rt: "\<forall>i\<in>set ids. \<forall>c. parse userID i = Inr c \<longrightarrow> ExternalKey cfg (ChunkRef c) = i"
  shows "distinct (chunkKeys cfg h' chunks')"
proof -
  let ?k = "\<lambda>c. ExternalKey cfg (ChunkRef c)"
  let ?f = "filterDuplicateChunks cfg h sc ids"
  from rt have "\<forall>i\<in>set ?f. \<forall>c. parse userID i = Inr c \<longrightarrow> ?k c = i"
    by (simp add: filterDuplicateChunks_set)
  with p have k: "map ?k cs = ?f" by (rule keys_of_parsed)
  from m have "mset (map ?k (concat (groupChunks h' chunks')))
      = mset (map ?k (concat (groupChunks h sc))) + mset (map ?k cs)"
    by (metis image_mset_union mset_map)
  with k have "mset (chunkKeys cfg h' chunks') = mset (chunkKeys cfg h sc @ ?f)"
    by (simp add: chunkKeys_def)
  moreover have "distinct (chunkKeys cfg h sc @ ?f)"
    using d by (auto simp: filterDuplicateChunks_distinct filterDuplicateChunks_set)
  ultimately show ?thesis by (metis mset_eq_imp_distinct_iff)
qed

text \<open>
  The merge only appends: the store's fetchers stay at the front of the fetchers, and each
  of the store's groups, when they are valid and separate, stays at its index and at the
  front of the group returned there.
\<close>

lemma mergeLoop_prefix:
  "mergeLoop grow parse a uid ids h sc fs idx = (h', Inr (sc', fs')) \<Longrightarrow>
   prefix fs fs' \<and> length sc \<le> length sc' \<and>
   (list_all (valid h) sc \<and> noSharing sc \<longrightarrow>
      (\<forall>n<length sc. prefix (elems h (sc ! n)) (elems h' (sc' ! n))))"
proof (induction ids arbitrary: h sc fs idx)
  case Nil
  then show ?case by simp
next
  case (Cons i ids)
  from Cons.prems obtain chk sc1 fs1 idx1 j h1 s1 where
    sc1: "sc1 = sc \<or> sc1 = sc @ [emptySlice]" and fs1: "prefix fs fs1"
    and j: "j < length sc1" and ap: "append_chunk grow h (sc1 ! j) chk = (h1, s1)"
    and rec: "mergeLoop grow parse a uid ids h1 (sc1[j := s1]) fs1 idx1 = (h', Inr (sc', fs'))"
    by (rule mergeLoop_step)
  from Cons.IH[OF rec] have
    p: "prefix fs1 fs'" and l: "length (sc1[j := s1]) \<le> length sc'"
    and g: "list_all (valid h1) (sc1[j := s1]) \<and> noSharing (sc1[j := s1]) \<longrightarrow>
            (\<forall>n<length (sc1[j := s1]). prefix (elems h1 (sc1[j := s1] ! n)) (elems h' (sc' ! n)))"
    by auto
  from sc1 have le: "length sc \<le> length sc1" by auto
  have "prefix (elems h (sc ! n)) (elems h' (sc' ! n))"
    if w: "list_all (valid h) sc \<and> noSharing sc" and n: "n < length sc" for n
  proof -
    from w sc1 have v1: "list_all (valid h) sc1" and n1: "noSharing sc1"
      by (auto simp: valid_emptySlice noSharing_snoc_empty)
    note s = append_chunk_step[OF v1 n1 j ap]
    from sc1 n have "sc ! n = sc1 ! n" by (auto simp: nth_append)
    moreover from n le have n1': "n < length sc1" by simp
    have "groupChunks h1 (sc1[j := s1]) ! n = (groupChunks h sc1)[j := groupChunks h sc1 ! j @ [chk]] ! n"
      using s(3) by simp
    with n1' j have "prefix (elems h (sc1 ! n)) (elems h1 (sc1[j := s1] ! n))"
      by (cases "n = j") (auto simp: groupChunks_def)
    moreover from g s(1,2) n1' have "prefix (elems h1 (sc1[j := s1] ! n)) (elems h' (sc' ! n))"
      by simp
    ultimately show ?thesis by (metis prefix_order.trans)
  qed
  with p fs1 l le show ?case
    by (auto intro: prefix_order.trans)
qed

text \<open>
  When the store gives as many groups as fetchers, the index of a group is never out of
  range, and the result again has as many groups as fetchers.
\<close>

lemma indexFetchers_bound:
  "(\<And>p i. idx p = Some i \<Longrightarrow> i < n + length fs) \<Longrightarrow>
   indexFetchers fs n idx p = Some i \<Longrightarrow> i < n + length fs"
proof (induction fs arbitrary: n idx)
  case Nil
  then show ?case by simp
next
  case (Cons f fs)
  have "indexFetchers fs (Suc n) (idx(f \<mapsto> n)) p = Some i"
    using Cons.prems(2) by simp
  moreover have "j < Suc n + length fs" if "(idx(f \<mapsto> n)) q = Some j" for q j
    using that Cons.prems(1)[of q j] by (cases "q = f") auto
  ultimately have "i < Suc n + length fs"
    by (rule Cons.IH[rotated])
  then show ?case by simp
qed

lemma mergeLoop_aligned:
  assumes "length sc = length fs" and "\<And>p i. idx p = Some i \<Longrightarrow> i < length fs"
  shows "snd (mergeLoop grow parse a uid ids h sc fs idx) \<noteq> Inl IndexOutOfRange \<and>
         (\<forall>h' sc' fs'. mergeLoop grow parse a uid ids h sc fs idx = (h', Inr (sc', fs'))
            \<longrightarrow> length sc' = length fs')"
  using assms
proof (induction ids arbitrary: h sc fs idx)
  case Nil
  then show ?case by simp
next
  case (Cons i ids)
  show ?case
  proof (cases "parse uid i")
    case (Inl e)
    then show ?thesis by simp
  next
    case (Inr chk)
    show ?thesis
    proof (cases "GetChunkFetcher (store a) (Through (ChunkRef chk))")
      case None
      with Inr show ?thesis by simp
    next
      case (Some f)
      show ?thesis
      proof (cases "idx (Some f)")
        case None
        obtain h1 s1 where ap: "append_chunk grow h ((sc @ [emptySlice]) ! length fs) chk = (h1, s1)"
          by (cases "append_chunk grow h ((sc @ [emptySlice]) ! length fs) chk") auto
        have b: "j < length (fs @ [Some f])" if "(idx(Some f \<mapsto> length fs)) q = Some j" for q j
          using that Cons.prems(2)[of q j] by (cases "q = Some f") auto
        have l: "length ((sc @ [emptySlice])[length fs := s1]) = length (fs @ [Some f])"
          using Cons.prems(1) by simp
        have "snd (mergeLoop grow parse a uid ids h1 ((sc @ [emptySlice])[length fs := s1])
                (fs @ [Some f]) (idx(Some f \<mapsto> length fs))) \<noteq> Inl IndexOutOfRange \<and>
              (\<forall>h' sc' fs'. mergeLoop grow parse a uid ids h1 ((sc @ [emptySlice])[length fs := s1])
                  (fs @ [Some f]) (idx(Some f \<mapsto> length fs)) = (h', Inr (sc', fs'))
                \<longrightarrow> length sc' = length fs')"
          by (rule Cons.IH[OF l]) (rule b)
        with Inr Some None ap Cons.prems(1)
        show ?thesis by (simp add: Let_def)
      next
        case (Some k)
        with Cons.prems have k: "k < length sc" by auto
        obtain h1 s1 where ap: "append_chunk grow h (sc ! k) chk = (h1, s1)"
          by (cases "append_chunk grow h (sc ! k) chk") auto
        have l: "length (sc[k := s1]) = length fs"
          using Cons.prems(1) by simp
        have "snd (mergeLoop grow parse a uid ids h1 (sc[k := s1]) fs idx) \<noteq> Inl IndexOutOfRange \<and>
              (\<forall>h' sc' fs'. mergeLoop grow parse a uid ids h1 (sc[k := s1]) fs idx = (h', Inr (sc', fs'))
                \<longrightarrow> length sc' = length fs')"
          by (rule Cons.IH[OF l]) (rule Cons.prems(2))
        with Inr \<open>GetChunkFetcher (store a) (Through (ChunkRef chk)) = Some f\<close> Some k ap
        show ?thesis by simp
      qed
    qed
  qed
qed

lemma merge_aligned:
  assumes "length sc = length fs"
  shows "snd (mergeIngesterAndStoreChunks grow parse a uid h sc fs ids) \<noteq> Inl IndexOutOfRange \<and>
         (\<forall>h' sc' fs'. mergeIngesterAndStoreChunks grow parse a uid h sc fs ids = (h', Inr (sc', fs'))
            \<longrightarrow> length sc' = length fs')"
  unfolding mergeIngesterAndStoreChunks_def
proof (rule mergeLoop_aligned[OF assms])
  fix p i assume "indexFetchers fs 0 Map.empty p = Some i"
  with indexFetchers_bound[of Map.empty 0 fs p i] show "i < length fs" by simp
qed

subsection \<open>AsyncStore.GetChunkRefs\<close>

text \<open>
  A call that returns a result got one from the store and one from the ingesters (or
  skipped them), and returned the store's result or the merge of the two.
\<close>

lemma GetChunkRefs_Inr:
  assumes "AsyncStore_GetChunkRefs grow parse a storeFirst now h userID from through ms
             = (h', Inr (chunks', fetchers'))"
  shows "\<exists>storeChunks fetchers ids.
           GetChunkRefs (store a) userID from through ms = Inr (storeChunks, fetchers) \<and>
           ingesterGoroutine a now from through ms = Inr ids \<and>
           (if ids = [] then chunks' = storeChunks \<and> fetchers' = fetchers \<and> h' = h
            else mergeIngesterAndStoreChunks grow parse a userID h storeChunks fetchers ids
                   = (h', Inr (chunks', fetchers')))"
  using assms unfolding AsyncStore_GetChunkRefs_def
  by (auto split: sum.splits prod.splits if_splits)

lemmas example_defs = exampleAsyncStore_def exampleStore_def exampleScfg_def exampleParse_def
  c1_def c2_def c3_def zeroChunk_def double_def sliceOf_def emptySlice_def
  AsyncStore_GetChunkRefs_def ingesterGoroutine_def shouldQueryIngesters_def
  mergeIngesterAndStoreChunks_def filterDuplicateChunks_def chunkKeys_def groupChunks_def
  append_chunk_def elems_def arrayAt_def valid_def spareOutside_def

text \<open>
  Claim C10, as the code has it. When the store answers and the ingesters report no chunk
  id (or are not asked), the call returns the store's groups and fetchers unchanged and
  writes nothing. For every call that returns a result: \<^verbatim>\<open>filterDuplicateChunks\<close> keeps,
  in the ingesters' order, one occurrence of each reported id that is not the external key
  of a chunk of the store, and every kept id is parsed. When the store's groups are valid
  slices and no group has spare capacity inside another group, the result holds exactly
  the store's chunks and these parsed chunks; then each external key occurs at most once
  in the result, provided that the external keys of the store's own chunks are pairwise
  distinct and that \<^verbatim>\<open>ExternalKey\<close> gives back the id a chunk was parsed from. The store's
  own chunks are never compared with each other, and nothing keeps an append from writing
  into a group that shares the backing array.
\<close>

theorem AsyncStore_GetChunkRefs_dedup:
  "(GetChunkRefs (store a) userID from through ms = Inr (storeChunks, fetchers) \<and>
    ingesterGoroutine a now from through ms = Inr [] \<longrightarrow>
      AsyncStore_GetChunkRefs grow parse a storeFirst now h userID from through ms
        = (h, Inr (storeChunks, fetchers)))
   \<and>
   (AsyncStore_GetChunkRefs grow parse a storeFirst now h userID from through ms
      = (h', Inr (chunks', fetchers')) \<longrightarrow>
     (\<exists>sc fs ids filtered.
        GetChunkRefs (store a) userID from through ms = Inr (sc, fs) \<and>
        ingesterGoroutine a now from through ms = Inr ids \<and>
        filtered = filterDuplicateChunks (scfg a) h sc ids \<and>
        distinct filtered \<and>
        set filtered = set ids - set (chunkKeys (scfg a) h sc) \<and>
        subseq filtered ids \<and>
        (ids = [] \<longrightarrow> chunks' = sc \<and> fetchers' = fs \<and> h' = h) \<and>
        (\<exists>cs. list_all2 (\<lambda>i c. parse userID i = Inr c) filtered cs \<and>
           (list_all (valid h) sc \<and> noSharing sc \<longrightarrow>
              mset (concat (groupChunks h' chunks')) = mset (concat (groupChunks h sc)) + mset cs \<and>
              (distinct (chunkKeys (scfg a) h sc) \<and>
               (\<forall>i\<in>set ids. \<forall>c. parse userID i = Inr c \<longrightarrow> ExternalKey (scfg a) (ChunkRef c) = i)
                 \<longrightarrow> distinct (chunkKeys (scfg a) h' chunks'))))))"
proof (intro conjI impI)
  assume "GetChunkRefs (store a) userID from through ms = Inr (storeChunks, fetchers) \<and>
    ingesterGoroutine a now from through ms = Inr []"
  then show "AsyncStore_GetChunkRefs grow parse a storeFirst now h userID from through ms
      = (h, Inr (storeChunks, fetchers))"
    by (simp add: AsyncStore_GetChunkRefs_def)
next
  assume ok: "AsyncStore_GetChunkRefs grow parse a storeFirst now h userID from through ms
      = (h', Inr (chunks', fetchers'))"
  from GetChunkRefs_Inr[OF ok] obtain sc fs ids where
    st: "GetChunkRefs (store a) userID from through ms = Inr (sc, fs)"
    and ing: "ingesterGoroutine a now from through ms = Inr ids"
    and res: "if ids = [] then chunks' = sc \<and> fetchers' = fs \<and> h' = h
              else mergeIngesterAndStoreChunks grow parse a userID h sc fs ids
                     = (h', Inr (chunks', fetchers'))"
    by blast
  let ?f = "filterDuplicateChunks (scfg a) h sc ids"
  have "\<exists>cs. list_all2 (\<lambda>i c. parse userID i = Inr c) ?f cs \<and>
          (list_all (valid h) sc \<and> noSharing sc \<longrightarrow>
             mset (concat (groupChunks h' chunks')) = mset (concat (groupChunks h sc)) + mset cs)"
  proof (cases "ids = []")
    case True
    with res show ?thesis by (simp add: filterDuplicateChunks_Nil)
  next
    case False
    with res merge_chunks[of grow parse a userID h sc fs ids h' chunks' fetchers']
    show ?thesis by auto
  qed
  then obtain cs where
    cs: "list_all2 (\<lambda>i c. parse userID i = Inr c) ?f cs"
    and m: "list_all (valid h) sc \<and> noSharing sc \<Longrightarrow>
             mset (concat (groupChunks h' chunks')) = mset (concat (groupChunks h sc)) + mset cs"
    by blast
  have dist: "distinct (chunkKeys (scfg a) h' chunks')"
    if "list_all (valid h) sc \<and> noSharing sc"
       "distinct (chunkKeys (scfg a) h sc) \<and>
        (\<forall>i\<in>set ids. \<forall>c. parse userID i = Inr c \<longrightarrow> ExternalKey (scfg a) (ChunkRef c) = i)"
  proof -
    from that(1) have "mset (concat (groupChunks h' chunks')) = mset (concat (groupChunks h sc)) + mset cs"
      by (rule m)
    from this cs that(2)[THEN conjunct1] that(2)[THEN conjunct2] show ?thesis
      by (rule distinct_merged_keys)
  qed
  from res have unch: "ids = [] \<longrightarrow> chunks' = sc \<and> fetchers' = fs \<and> h' = h" by simp
  have tail: "\<exists>cs. list_all2 (\<lambda>i c. parse userID i = Inr c) ?f cs \<and>
           (list_all (valid h) sc \<and> noSharing sc \<longrightarrow>
              mset (concat (groupChunks h' chunks')) = mset (concat (groupChunks h sc)) + mset cs \<and>
              (distinct (chunkKeys (scfg a) h sc) \<and>
               (\<forall>i\<in>set ids. \<forall>c. parse userID i = Inr c \<longrightarrow> ExternalKey (scfg a) (ChunkRef c) = i)
                 \<longrightarrow> distinct (chunkKeys (scfg a) h' chunks')))"
    using cs m dist by (intro exI[of _ cs]) blast
  show "\<exists>sc fs ids filtered.
        GetChunkRefs (store a) userID from through ms = Inr (sc, fs) \<and>
        ingesterGoroutine a now from through ms = Inr ids \<and>
        filtered = filterDuplicateChunks (scfg a) h sc ids \<and>
        distinct filtered \<and>
        set filtered = set ids - set (chunkKeys (scfg a) h sc) \<and>
        subseq filtered ids \<and>
        (ids = [] \<longrightarrow> chunks' = sc \<and> fetchers' = fs \<and> h' = h) \<and>
        (\<exists>cs. list_all2 (\<lambda>i c. parse userID i = Inr c) filtered cs \<and>
           (list_all (valid h) sc \<and> noSharing sc \<longrightarrow>
              mset (concat (groupChunks h' chunks')) = mset (concat (groupChunks h sc)) + mset cs \<and>
              (distinct (chunkKeys (scfg a) h sc) \<and>
               (\<forall>i\<in>set ids. \<forall>c. parse userID i = Inr c \<longrightarrow> ExternalKey (scfg a) (ChunkRef c) = i)
                 \<longrightarrow> distinct (chunkKeys (scfg a) h' chunks'))))"
    using st ing unch tail
      filterDuplicateChunks_distinct[of "scfg a" h sc ids]
      filterDuplicateChunks_set[of "scfg a" h sc ids]
      filterDuplicateChunks_subseq[of "scfg a" h sc ids]
    by (intro exI[of _ sc] exI[of _ fs] exI[of _ ids] exI[of _ ?f]) blast
qed

text \<open>
  The theorem at work: the store holds chunk 1 under fetcher 0, in an array with one spare
  cell, and the ingesters report the ids of chunks 1, 2, 2 and 3. Chunk 2 goes into the
  spare cell of the group of fetcher 0, chunk 3 opens the group of fetcher 1 in a new
  array, and no key occurs twice. With no id reported, the store's answer comes back as
  it is.
\<close>

theorem AsyncStore_GetChunkRefs_dedup_witness:
  "AsyncStore_GetChunkRefs double exampleParse
     (exampleAsyncStore [sliceOf 0 2 0 1] [Some 0] [''fake/1'', ''fake/2'', ''fake/2'', ''fake/3''])
     True 100 [[c1, zeroChunk]] ''fake'' 0 20 ()
     = ([[c1, c2], [c3]], Inr ([sliceOf 0 2 0 2, sliceOf 1 1 0 1], [Some 0, Some 1]))
   \<and> groupChunks [[c1, c2], [c3]] [sliceOf 0 2 0 2, sliceOf 1 1 0 1] = [[c1, c2], [c3]]
   \<and> distinct (chunkKeys exampleScfg [[c1, c2], [c3]] [sliceOf 0 2 0 2, sliceOf 1 1 0 1])
   \<and> AsyncStore_GetChunkRefs double exampleParse (exampleAsyncStore [sliceOf 0 2 0 1] [Some 0] [])
        True 100 [[c1, zeroChunk]] ''fake'' 0 20 ()
     = ([[c1, zeroChunk]], Inr ([sliceOf 0 2 0 1], [Some 0]))"
proof -
  let ?ids = "[''fake/1'', ''fake/2'', ''fake/2'', ''fake/3'']"
  let ?sc = "[sliceOf 0 2 0 1]"
  let ?h = "[[c1, zeroChunk]]"
  let ?a = "exampleAsyncStore ?sc [Some 0] ?ids"
  let ?b = "exampleAsyncStore ?sc [Some 0] []"
  let ?h' = "[[c1, c2], [c3]]"
  let ?sc' = "[sliceOf 0 2 0 2, sliceOf 1 1 0 1]"
  have ok: "AsyncStore_GetChunkRefs double exampleParse ?a True 100 ?h ''fake'' 0 20 ()
              = (?h', Inr (?sc', [Some 0, Some 1]))"
    by (simp add: example_defs)
  have st: "GetChunkRefs (store ?a) ''fake'' 0 20 () = Inr (?sc, [Some 0])"
    by (simp add: exampleAsyncStore_def exampleStore_def)
  have ing: "ingesterGoroutine ?a 100 0 20 () = Inr ?ids"
    by (simp add: exampleAsyncStore_def ingesterGoroutine_def shouldQueryIngesters_def)
  have w: "list_all (valid ?h) ?sc \<and> noSharing ?sc"
    by (simp add: valid_def sliceOf_def)
  have d: "distinct (chunkKeys (scfg ?a) ?h ?sc)"
    by (simp add: chunkKeys_def groupChunks_def elems_def arrayAt_def sliceOf_def)
  have rt: "\<forall>i\<in>set ?ids. \<forall>c. exampleParse ''fake'' i = Inr c \<longrightarrow> ExternalKey (scfg ?a) (ChunkRef c) = i"
    by (simp add: example_defs)
  have cfg: "scfg ?a = exampleScfg"
    by (simp add: exampleAsyncStore_def)
  from AsyncStore_GetChunkRefs_dedup[of ?a "''fake''" 0 20 "()" _ _ 100 double exampleParse True
      ?h ?h' ?sc' "[Some 0, Some 1]", THEN conjunct2, rule_format, OF ok]
  have "distinct (chunkKeys (scfg ?a) ?h' ?sc')"
    using st ing w d rt by auto
  moreover
  have "GetChunkRefs (store ?b) ''fake'' 0 20 () = Inr (?sc, [Some 0]) \<and>
        ingesterGoroutine ?b 100 0 20 () = Inr []"
    by (simp add: exampleAsyncStore_def exampleStore_def ingesterGoroutine_def shouldQueryIngesters_def)
  from AsyncStore_GetChunkRefs_dedup[of ?b "''fake''" 0 20 "()" ?sc "[Some 0]" 100 double exampleParse True ?h,
      THEN conjunct1, rule_format, OF this]
  have "AsyncStore_GetChunkRefs double exampleParse ?b True 100 ?h ''fake'' 0 20 ()
          = (?h, Inr (?sc, [Some 0]))" .
  moreover have "groupChunks ?h' ?sc' = [[c1, c2], [c3]]"
    by (simp add: groupChunks_def elems_def arrayAt_def sliceOf_def)
  ultimately show ?thesis using ok cfg by simp
qed

text \<open>
  Two stores for which a key occurs twice in the result. The first lists chunk 1 under
  both of its fetchers, in two arrays: the key of chunk 1 occurs twice, whether the
  ingesters report ids (the id of chunk 1 is dropped, chunk 2 is merged in) or none (the
  store's answer is returned as it is). The second holds chunks 1 and 3 in one array
  \<open>a\<close> and lists \<open>a[0:1]\<close> under fetcher 0 and \<open>a[1:2]\<close> under fetcher 1, so that its keys are
  distinct; the ingesters report chunk 2, the append to the first group writes it into
  the cell of chunk 3, and the result is chunks 1 and 2 under fetcher 0 and chunk 2 under
  fetcher 1.
\<close>

theorem AsyncStore_GetChunkRefs_duplicate_store_chunk:
  "list_all (valid [[c1], [c1]]) [sliceOf 0 1 0 1, sliceOf 1 1 0 1]
   \<and> noSharing [sliceOf 0 1 0 1, sliceOf 1 1 0 1]
   \<and> AsyncStore_GetChunkRefs double exampleParse
       (exampleAsyncStore [sliceOf 0 1 0 1, sliceOf 1 1 0 1] [Some 0, Some 1] [''fake/1'', ''fake/2''])
       True 100 [[c1], [c1]] ''fake'' 0 20 ()
     = ([[c1], [c1], [c1, c2]], Inr ([sliceOf 2 2 0 2, sliceOf 1 1 0 1], [Some 0, Some 1]))
   \<and> groupChunks [[c1], [c1], [c1, c2]] [sliceOf 2 2 0 2, sliceOf 1 1 0 1] = [[c1, c2], [c1]]
   \<and> \<not> distinct (chunkKeys exampleScfg [[c1], [c1], [c1, c2]] [sliceOf 2 2 0 2, sliceOf 1 1 0 1])
   \<and> AsyncStore_GetChunkRefs double exampleParse
       (exampleAsyncStore [sliceOf 0 1 0 1, sliceOf 1 1 0 1] [Some 0, Some 1] [])
       True 100 [[c1], [c1]] ''fake'' 0 20 ()
     = ([[c1], [c1]], Inr ([sliceOf 0 1 0 1, sliceOf 1 1 0 1], [Some 0, Some 1]))
   \<and> \<not> distinct (chunkKeys exampleScfg [[c1], [c1]] [sliceOf 0 1 0 1, sliceOf 1 1 0 1])
   \<and> list_all (valid [[c1, c3]]) [sliceOf 0 2 0 1, sliceOf 0 2 1 2]
   \<and> distinct (chunkKeys exampleScfg [[c1, c3]] [sliceOf 0 2 0 1, sliceOf 0 2 1 2])
   \<and> AsyncStore_GetChunkRefs double exampleParse
       (exampleAsyncStore [sliceOf 0 2 0 1, sliceOf 0 2 1 2] [Some 0, Some 1] [''fake/2''])
       True 100 [[c1, c3]] ''fake'' 0 20 ()
     = ([[c1, c2]], Inr ([sliceOf 0 2 0 2, sliceOf 0 2 1 2], [Some 0, Some 1]))
   \<and> groupChunks [[c1, c2]] [sliceOf 0 2 0 2, sliceOf 0 2 1 2] = [[c1, c2], [c2]]
   \<and> \<not> distinct (chunkKeys exampleScfg [[c1, c2]] [sliceOf 0 2 0 2, sliceOf 0 2 1 2])"
  by (simp add: example_defs)

section \<open>Properties of the bloom gateway querier\<close>

text \<open>
  Claim C7: when the list of chunk refs is empty or the plan has no line filter,
  \<^verbatim>\<open>FilterChunkRefs\<close> returns the chunk refs it was given, with no error, and hands the
  client back as it was: the client is not called, so a \<^verbatim>\<open>noopClient\<close> keeps its call
  count.
\<close>

theorem FilterChunkRefs_short_circuit:
  assumes "chunkRefs = [] \<or> lineFilters plan = []"
  shows "FilterChunkRefs perDay c tenant from through chunkRefs plan = (c, Inr chunkRefs)"
  using assms by (auto simp: FilterChunkRefs_def)

text \<open>
  The two cases of the test: three chunk refs with the plan \<^verbatim>\<open>{foo="bar"}\<close>, and no
  chunk ref with the plan \<^verbatim>\<open>{foo="bar"} |= "uuid"\<close>; the interval is twelve hours. The
  client's call count stays 0. With three chunk refs and a line filter the client is
  called.
\<close>

theorem FilterChunkRefs_short_circuit_witness:
  "FilterChunkRefs oneCall \<lparr>err = None, callCount = 0\<rparr> ''fake'' 1713268800000 1713312000000
     testChunkRefs planSelectorOnly = (\<lparr>err = None, callCount = 0\<rparr>, Inr testChunkRefs)
   \<and> FilterChunkRefs oneCall \<lparr>err = None, callCount = 0\<rparr> ''fake'' 1713268800000 1713312000000
     [] planLineFilter = (\<lparr>err = None, callCount = 0\<rparr>, Inr [])
   \<and> callCount (fst (FilterChunkRefs oneCall \<lparr>err = None, callCount = 0\<rparr> ''fake''
     1713268800000 1713312000000 testChunkRefs planLineFilter)) = 1"
proof -
  let ?c = "\<lparr>err = None, callCount = 0\<rparr> :: string noopClient"
  have a: "testChunkRefs = [] \<or> lineFilters planSelectorOnly = []"
    by (simp add: planSelectorOnly_def)
  have b: "([] :: ChunkRef list) = [] \<or> lineFilters planLineFilter = []"
    by simp
  have "callCount (fst (FilterChunkRefs oneCall ?c ''fake''
     1713268800000 1713312000000 testChunkRefs planLineFilter)) = 1"
    by (simp add: FilterChunkRefs_def oneCall_def FilterChunks_def testChunkRefs_def
        planLineFilter_def)
  with FilterChunkRefs_short_circuit[OF a, of oneCall ?c "''fake''" 1713268800000 1713312000000]
    FilterChunkRefs_short_circuit[OF b, of oneCall ?c "''fake''" 1713268800000 1713312000000]
  show ?thesis by simp
qed

end
